theory Spec2Isabelle
  imports Main "HOL-Library.Word"
begin

unbundle bit_operations_syntax

section \<open>Data model\<close>

text \<open>
  \<^verbatim>\<open>type ObjectIdentifier []uint16\<close>: an OID is a sequence of 16-bit arcs. Go's
  \<^verbatim>\<open>byte\<close> is an 8-bit word, a Go \<^verbatim>\<open>string\<close> is a sequence of bytes.
\<close>

type_synonym byte = "8 word"
type_synonym uint16 = "16 word"
type_synonym ObjectIdentifier = "uint16 list"

section \<open>Base-128 primitive (encode direction)\<close>

text \<open>
  Modelled from the spec: \<^verbatim>\<open>reverseSlice\<close> is called by \<^verbatim>\<open>encodeOIDUint\<close> but
  defined outside \<^verbatim>\<open>oid.go\<close>; the spec describes it as the byte-order reversal helper.
\<close>

definition reverseSlice :: "byte list \<Rightarrow> byte list" where
  "reverseSlice b = rev b"

text \<open>
  The loop \<^verbatim>\<open>for i > 0 { b = append(b, 128+byte(i)%128); i /= 128 }\<close>.
  \<^verbatim>\<open>byte(i)\<close> keeps the low eight bits of \<open>i\<close>; \<open>%\<close> binds tighter than \<open>+\<close>.
\<close>

function encodeOIDUint_loop :: "uint16 \<Rightarrow> byte list \<Rightarrow> byte list" where
  "encodeOIDUint_loop i b =
     (if i > 0 then encodeOIDUint_loop (i div 128) (b @ [128 + (ucast i :: byte) mod 128])
      else b)"
  by pat_completeness auto
termination
proof (relation "measure (\<lambda>(i, b). unat i)")
  show "wf (measure (\<lambda>(i :: uint16, b :: byte list). unat i))"
    by simp
next
  fix i :: uint16 and b :: "byte list"
  assume "0 < i"
  then have "0 < unat i"
    by (simp add: word_greater_zero_iff unat_gt_0)
  then have "unat i div 128 < unat i"
    by simp
  then show "((i div 128, b @ [128 + (ucast i :: byte) mod 128]), (i, b))
      \<in> measure (\<lambda>(i, b). unat i)"
    by (simp add: unat_div)
qed

definition encodeOIDUint :: "uint16 \<Rightarrow> byte list" where
  "encodeOIDUint i =
     (if i < 128 then [ucast i]
      else reverseSlice (encodeOIDUint_loop (i div 128) [(ucast i :: byte) mod 128]))"

section \<open>Encoder\<close>

datatype encode_error = InvalidLength | BadRoot

text \<open>
  The loop \<^verbatim>\<open>for i := 2; i < len(oid); i++ { b = append(b, encodeOIDUint(oid[i])...) }\<close>.
\<close>

function Encode_loop :: "ObjectIdentifier \<Rightarrow> nat \<Rightarrow> byte list \<Rightarrow> byte list" where
  "Encode_loop oid i b =
     (if i < length oid then Encode_loop oid (i + 1) (b @ encodeOIDUint (oid ! i)) else b)"
  by pat_completeness auto
termination
  by (relation "measure (\<lambda>(oid, i, b). length oid - i)") auto

text \<open>
  \<^verbatim>\<open>encodeHeaderSequence\<close> (the TLV header collaborator) is defined outside \<^verbatim>\<open>oid.go\<close>;
  it is a parameter of the model: it receives the tag \<open>0x6\<close> and the payload length.
  \<open>InvalidLength\<close> is the error "snmp: invalid ObjectIdentifier length", \<open>BadRoot\<close> the
  error "ObjectIdentifier does not start with .1.3".
\<close>

definition Encode :: "(nat \<Rightarrow> nat \<Rightarrow> byte list) \<Rightarrow> ObjectIdentifier \<Rightarrow> encode_error + byte list" where
  "Encode encodeHeaderSequence oid =
     (if length oid < 2 then Inl InvalidLength
      else if oid ! 0 \<noteq> 1 \<and> oid ! 1 \<noteq> 3 then Inl BadRoot
      else (let b = Encode_loop oid 2 [0x2b]
            in Inr (encodeHeaderSequence 0x6 (length b) @ b)))"

text \<open>
  The payload that \<^verbatim>\<open>Encode\<close> builds in \<open>b\<close> before the header is put in front of it.
\<close>

definition Encode_payload :: "ObjectIdentifier \<Rightarrow> byte list" where
  "Encode_payload oid = Encode_loop oid 2 [0x2b]"

section \<open>Decoder\<close>

text \<open>
  An \<^verbatim>\<open>io.Reader\<close> with state \<open>'s\<close>: \<open>r s k\<close> is one call of \<^verbatim>\<open>Read\<close> on a buffer of
  \<open>k\<close> bytes in state \<open>s\<close>; it yields the bytes stored at the front of the buffer (their
  number is the \<open>n\<close> that \<^verbatim>\<open>Read\<close> returns), the error if any, and the reader's next state.
\<close>

type_synonym ('s, 'e) Reader = "'s \<Rightarrow> nat \<Rightarrow> byte list \<times> 'e option \<times> 's"

text \<open>
  What a call of \<^verbatim>\<open>decodeOID\<close> does: it panics (index out of range, or a negative size
  given to \<^verbatim>\<open>make\<close>), or returns \<^verbatim>\<open>(nil, bytesRead, err)\<close>, or returns
  \<^verbatim>\<open>(oid, bytesRead, nil)\<close>.
\<close>

datatype 'e outcome = Panic | Failure 'e nat | Success ObjectIdentifier nat

text \<open>
  The inner loop \<^verbatim>\<open>for b[i] >= 128 { val += uint16(b[i]) - 128; val *= 128; i++ }\<close>
  followed by \<^verbatim>\<open>val += uint16(b[i])\<close>. Go checks every index: \<^verbatim>\<open>b[i]\<close> with
  \<open>i \<ge> len(b)\<close> panics, which is \<open>None\<close> here. Otherwise the result is the index of the
  group's last byte and the accumulated 16-bit value.
\<close>

function decodeOID_group :: "byte list \<Rightarrow> nat \<Rightarrow> uint16 \<Rightarrow> (nat \<times> uint16) option" where
  "decodeOID_group b i val =
     (if i < length b then
        (if b ! i \<ge> 128 then decodeOID_group b (i + 1) ((val + (ucast (b ! i) - 128)) * 128)
         else Some (i, val + ucast (b ! i)))
      else None)"
  by pat_completeness auto
termination
  by (relation "measure (\<lambda>(b, i, val). length b - i)") auto

text \<open>
  The outer loop \<^verbatim>\<open>for i := 1; i < length; i++ { val := uint16(0); ...; oid = append(oid, val) }\<close>,
  where \<open>length = len(b)\<close>. The inner loop advances the same \<open>i\<close>.
\<close>

function decodeOID_loop :: "byte list \<Rightarrow> nat \<Rightarrow> ObjectIdentifier \<Rightarrow> ObjectIdentifier option" where
  "decodeOID_loop b i oid =
     (if i < length b then
        (case decodeOID_group b i 0 of
           None \<Rightarrow> None
         | Some (j, val) \<Rightarrow> decodeOID_loop b (j + 1) (oid @ [val]))
      else Some oid)"
  by pat_completeness auto
termination
proof (relation "measure (\<lambda>(b, i, oid). length b - i)")
  show "wf (measure (\<lambda>(b :: byte list, i :: nat, oid :: ObjectIdentifier). length b - i))"
    by simp
next
  fix b :: "byte list" and i :: nat and oid :: ObjectIdentifier and x2 x y
  assume lt: "i < length b" and res: "decodeOID_group b i 0 = Some x2" and x2: "(x, y) = x2"
  have mono: "decodeOID_group b k v = Some (j, w) \<Longrightarrow> k \<le> j" for k v j w
  proof (induction b k v rule: decodeOID_group.induct)
    case (1 b i val)
    then show ?case
      by (auto split: if_splits)
  qed
  from res x2 have "i \<le> x"
    using mono [of i 0 x y] by simp
  with lt show "((b, x + 1, oid @ [y]), (b, i, oid)) \<in> measure (\<lambda>(b, i, oid). length b - i)"
    by simp
qed

text \<open>
  \<^verbatim>\<open>decodeOID(length, r)\<close>, with \<open>len\<close> for the parameter \<^verbatim>\<open>length\<close>. \<^verbatim>\<open>make([]byte, length)\<close> panics when \<open>length\<close> is negative
  and gives \<open>length\<close> zero bytes otherwise; the one call \<^verbatim>\<open>r.Read(b)\<close> overwrites the
  front of \<open>b\<close>; the readers modelled store nothing in \<open>b\<close> beyond the bytes they count, so
  the rest of \<open>b\<close> keeps its zeros. The reader's state after the call is returned beside the
  outcome.
\<close>

definition decodeOID :: "int \<Rightarrow> ('s, 'e) Reader \<Rightarrow> 's \<Rightarrow> 'e outcome \<times> 's" where
  "decodeOID len r s =
     (if len < 0 then (Panic, s)
      else (case r s (nat len) of (data, err, s') \<Rightarrow>
        (let b = take (nat len) (data @ replicate (nat len) 0);
             bytesRead = 0 + length data
         in (case err of
               Some e \<Rightarrow> (Failure e bytesRead, s')
             | None \<Rightarrow>
                 (if 0 < length b then
                    (case decodeOID_loop b 1 [ucast (b ! 0) div 40, ucast (b ! 0) mod 40] of
                       None \<Rightarrow> (Panic, s')
                     | Some oid \<Rightarrow> (Success oid bytesRead, s'))
                  else (Panic, s'))))))"

text \<open>
  A concrete \<^verbatim>\<open>io.Reader\<close>: a source that hands out its bytes in the chunks of its
  state, one chunk (or the part of it that fits the buffer) per call of \<^verbatim>\<open>Read\<close>, and
  reports \<^verbatim>\<open>io.EOF\<close> with no bytes once nothing is left. A single chunk is a
  \<^verbatim>\<open>bytes.Reader\<close>; several chunks are a source that returns fewer bytes than requested.
\<close>

datatype io_error = EOF

fun chunkReader :: "byte list list \<Rightarrow> nat \<Rightarrow> byte list \<times> io_error option \<times> byte list list" where
  "chunkReader [] k = ([], Some EOF, [])"
| "chunkReader (c # cs) k =
     (if length c \<le> k then (c, None, cs) else (take k c, None, drop k c # cs))"

text \<open>
  The value a base-128 group stands for: seven bits per byte, most significant group
  first. A group is well terminated when the top bit is set on every byte but the last.
\<close>

fun group_value :: "byte list \<Rightarrow> nat" where
  "group_value [] = 0"
| "group_value (b # bs) = (unat b mod 128) * 128 ^ length bs + group_value bs"

definition well_terminated :: "byte list \<Rightarrow> bool" where
  "well_terminated g = (g \<noteq> [] \<and> list_all (\<lambda>b. b \<ge> 128) (butlast g) \<and> last g < 128)"

section \<open>Parser\<close>

text \<open>
  The Go standard library, as \<^verbatim>\<open>ParseOID\<close> uses it. \<^verbatim>\<open>strings.Trim(s, cutset)\<close> removes
  the leading and the trailing characters that occur in \<open>cutset\<close>.
\<close>

definition Trim :: "string \<Rightarrow> string \<Rightarrow> string" where
  "Trim s cutset =
     rev (dropWhile (\<lambda>c. c \<in> set cutset) (rev (dropWhile (\<lambda>c. c \<in> set cutset) s)))"

text \<open>
  \<^verbatim>\<open>strings.Split(s, sep)\<close> for a separator of one character: the substrings between
  the occurrences of the separator, so one more than there are occurrences.
\<close>

function Split :: "string \<Rightarrow> char \<Rightarrow> string list" where
  "Split s sep =
     (let tok = takeWhile (\<lambda>c. c \<noteq> sep) s; rest = dropWhile (\<lambda>c. c \<noteq> sep) s
      in if rest = [] then [tok] else tok # Split (tl rest) sep)"
  by pat_completeness auto
termination
proof (relation "measure (\<lambda>(s, sep). length s)")
  show "wf (measure (\<lambda>(s :: string, sep :: char). length s))"
    by simp
next
  fix s :: string and sep :: char and x xa
  assume "x = takeWhile (\<lambda>c. c \<noteq> sep) s" and xa: "xa = dropWhile (\<lambda>c. c \<noteq> sep) s"
    and ne: "xa \<noteq> []"
  have "length xa \<le> length s"
    unfolding xa by (rule length_dropWhile_le)
  moreover from ne have "length (tl xa) < length xa"
    by (cases xa) simp_all
  ultimately show "((tl xa, sep), (s, sep)) \<in> measure (\<lambda>(s, sep). length s)"
    by simp
qed

text \<open>
  \<^verbatim>\<open>strconv.ParseUint(s, 10, bitSize)\<close>. The empty string is a syntax error. The
  characters are read from the left into a 64-bit accumulator \<open>n\<close>: a character that is
  not a decimal digit is a syntax error; \<open>n\<close> at or above the cutoff \<open>maxUint64/10 + 1\<close>
  (where \<open>n * 10\<close> would wrap), and \<open>n * 10 + d\<close> wrapping or exceeding
  \<open>maxVal = 2 ^ bitSize - 1\<close>, are range errors. The first error met is returned.
\<close>

datatype NumError = ErrSyntax | ErrRange

definition isDigit :: "char \<Rightarrow> bool" where
  "isDigit c = (48 \<le> (of_char c :: nat) \<and> (of_char c :: nat) \<le> 57)"

fun ParseUint_loop :: "nat \<Rightarrow> nat \<Rightarrow> string \<Rightarrow> NumError + nat" where
  "ParseUint_loop maxVal n [] = Inr n"
| "ParseUint_loop maxVal n (c # cs) =
     (if \<not> isDigit c then Inl ErrSyntax
      else if n \<ge> (2 ^ 64 - 1) div 10 + 1 then Inl ErrRange
      else (let n10 = (n * 10) mod 2 ^ 64;
                n1 = (n10 + (of_char c - 48)) mod 2 ^ 64
            in if n1 < n10 \<or> n1 > maxVal then Inl ErrRange
               else ParseUint_loop maxVal n1 cs))"

definition ParseUint :: "string \<Rightarrow> nat \<Rightarrow> NumError + nat" where
  "ParseUint s bitSize =
     (if s = [] then Inl ErrSyntax else ParseUint_loop (2 ^ bitSize - 1) 0 s)"

text \<open>
  The loop of \<^verbatim>\<open>ParseOID\<close> over the parts: the first error is returned with no OID
  (\<^verbatim>\<open>return nil, err\<close>), otherwise \<^verbatim>\<open>uint16(n)\<close> is appended.
\<close>

fun ParseOID_loop :: "string list \<Rightarrow> ObjectIdentifier \<Rightarrow> NumError + ObjectIdentifier" where
  "ParseOID_loop [] oid = Inr oid"
| "ParseOID_loop (part # parts) oid =
     (case ParseUint part 16 of
        Inl err \<Rightarrow> Inl err
      | Inr n \<Rightarrow> ParseOID_loop parts (oid @ [of_nat n]))"

definition ParseOID :: "string \<Rightarrow> NumError + ObjectIdentifier" where
  "ParseOID str = ParseOID_loop (Split (Trim str ''.'') (CHR ''.'')) []"

text \<open>
  What the spec asks of a token: a non-empty string of decimal digits that stands for an
  integer in the range 0 to 65535.
\<close>

definition decimal_value :: "string \<Rightarrow> nat" where
  "decimal_value t = foldl (\<lambda>n c. n * 10 + (of_char c - 48)) 0 t"

definition valid_token :: "string \<Rightarrow> bool" where
  "valid_token t = (t \<noteq> [] \<and> list_all isDigit t \<and> decimal_value t \<le> 65535)"

definition tokens :: "string \<Rightarrow> string list" where
  "tokens str = Split (Trim str ''.'') (CHR ''.'')"

section \<open>Formatter\<close>

text \<open>
  \<^verbatim>\<open>fmt.Sprintf(".%d", part)\<close>: a dot, then the decimal digits of the arc, most
  significant first, with no leading zero (\<open>0\<close> itself is one digit).
\<close>

function decimal :: "nat \<Rightarrow> string" where
  "decimal n =
     (if n < 10 then [char_of (48 + n)] else decimal (n div 10) @ [char_of (48 + n mod 10)])"
  by pat_completeness auto
termination
  by (relation "measure id") auto

definition Sprintf_dot_d :: "uint16 \<Rightarrow> string" where
  "Sprintf_dot_d part = CHR ''.'' # decimal (unat part)"

text \<open>The method \<^verbatim>\<open>String\<close>: \<^verbatim>\<open>str += fmt.Sprintf(".%d", part)\<close> for every part.\<close>

definition String :: "ObjectIdentifier \<Rightarrow> string" where
  "String oid = foldl (\<lambda>str part. str @ Sprintf_dot_d part) [] oid"

section \<open>Properties\<close>

text \<open>
  The equations of the loops are recursive; they are unfolded by hand, one step at a time.
\<close>

declare encodeOIDUint_loop.simps [simp del]
declare Encode_loop.simps [simp del]
declare decodeOID_group.simps [simp del]
declare decodeOID_loop.simps [simp del]
declare Split.simps [simp del]
declare decimal.simps [simp del]

subsection \<open>Bytes and 16-bit arcs\<close>

lemma unat_ucast_byte: "unat (ucast (i :: uint16) :: byte) = unat i mod 256"
  by (simp add: unsigned_ucast_eq take_bit_eq_mod)

lemma byte_low7: "unat ((ucast (i :: uint16) :: byte) mod 128) = unat i mod 128"
proof -
  have "unat ((ucast i :: byte) mod 128) = (unat i mod 256) mod 128"
    by (simp add: unat_mod unat_ucast_byte)
  also have "\<dots> = unat i mod 128"
    by (simp add: mod_mod_cancel)
  finally show ?thesis .
qed

lemma cont_byte_unat: "unat ((128 :: byte) + (ucast (i :: uint16)) mod 128) = 128 + unat i mod 128"
proof -
  define x :: byte where "x = (ucast i) mod 128"
  have x: "unat x = unat i mod 128"
    unfolding x_def by (rule byte_low7)
  then have "unat (128 :: byte) + unat x < 2 ^ LENGTH(8)"
    by simp
  then have "unat ((128 :: byte) + x) = unat (128 :: byte) + unat x"
    by (simp only: unat_add_lem)
  then show ?thesis
    using x by (simp add: x_def)
qed

lemma byte_ge_128: "((b :: byte) \<ge> 128) = (128 \<le> unat b)"
  by (simp add: word_le_nat_alt)

lemma ucast_byte_of_nat: "(ucast (b :: byte) :: uint16) = of_nat (unat b)"
  by simp

lemma ucast_cont: "(b :: byte) \<ge> 128 \<Longrightarrow> (ucast b :: uint16) - 128 = of_nat (unat b mod 128)"
proof -
  assume "b \<ge> 128"
  then have ge: "128 \<le> unat b"
    by (simp add: word_le_nat_alt)
  have lt: "unat b < 256"
    using unsigned_less [of b] by simp
  from ge lt have m: "unat b mod 128 = unat b - 128"
    by (simp add: mod_if)
  have "(of_nat (unat b - 128) :: uint16) = of_nat (unat b) - of_nat 128"
    using ge by (rule of_nat_diff)
  then show ?thesis
    by (simp add: m)
qed

lemma ucast_term: "(b :: byte) < 128 \<Longrightarrow> (ucast b :: uint16) = of_nat (unat b mod 128)"
  by (simp add: word_less_nat_alt)

lemma byte_bit7: "bit (b :: byte) 7 = (128 \<le> b)"
proof -
  have lt: "unat b < 256"
    using unsigned_less [of b] by simp
  have "bit b 7 = bit (unat b) 7"
    by (simp add: bit_unsigned_iff)
  also have "\<dots> = odd (unat b div 128)"
    by (simp add: bit_iff_odd)
  also have "\<dots> = (128 \<le> unat b)"
  proof (cases "128 \<le> unat b")
    case True
    with lt have "unat b div 128 = 1" by simp
    with True show ?thesis by simp
  next
    case False
    then have "unat b div 128 = 0" by simp
    with False show ?thesis by simp
  qed
  finally show ?thesis
    by (simp add: word_le_nat_alt)
qed


subsection \<open>The decoder on well-terminated groups\<close>

lemma well_terminated_Cons:
  "well_terminated (c # g) = (if g = [] then c < 128 else c \<ge> 128 \<and> well_terminated g)"
  by (auto simp: well_terminated_def)

lemma decodeOID_group_app:
  "well_terminated g \<Longrightarrow>
   decodeOID_group (pre @ g @ post) (length pre) val =
     Some (length pre + length g - 1, val * 128 ^ (length g - 1) + of_nat (group_value g))"
proof (induction g arbitrary: pre val)
  case Nil
  then show ?case by (simp add: well_terminated_def)
next
  case (Cons c g)
  show ?case
  proof (cases "g = []")
    case True
    with Cons.prems have c: "c < 128"
      by (simp add: well_terminated_Cons)
    then have "\<not> 128 \<le> c" by simp
    with True c show ?thesis
      by (subst decodeOID_group.simps) (simp add: ucast_term)
  next
    case False
    with Cons.prems have c: "c \<ge> 128" and wt: "well_terminated g"
      by (simp_all add: well_terminated_Cons)
    from False obtain n where n: "length g = Suc n"
      by (cases g) auto
    have step: "decodeOID_group (pre @ (c # g) @ post) (length pre) val =
        decodeOID_group ((pre @ [c]) @ g @ post) (length (pre @ [c]))
          ((val + of_nat (unat c mod 128)) * 128)"
      using c by (subst decodeOID_group.simps) (simp add: ucast_cont)
    also have "\<dots> = Some (length (pre @ [c]) + length g - 1,
        (val + of_nat (unat c mod 128)) * 128 * 128 ^ (length g - 1) + of_nat (group_value g))"
      by (rule Cons.IH [OF wt])
    finally have res: "decodeOID_group (pre @ (c # g) @ post) (length pre) val =
        Some (length (pre @ [c]) + length g - 1,
          (val + of_nat (unat c mod 128)) * 128 * 128 ^ (length g - 1) + of_nat (group_value g))" .
    have idx: "length (pre @ [c]) + length g - 1 = length pre + length (c # g) - 1"
      by simp
    have "(val + of_nat (unat c mod 128)) * 128 * 128 ^ (length g - 1) + of_nat (group_value g) =
        val * 128 ^ Suc n + (of_nat (unat c mod 128) * 128 ^ Suc n + of_nat (group_value g))"
      by (simp add: n distrib_right mult.assoc add.assoc)
    also have "\<dots> = val * 128 ^ (length (c # g) - 1) + of_nat (group_value (c # g))"
      by (simp add: n)
    finally show ?thesis
      using res idx by simp
  qed
qed

lemma decodeOID_loop_groups:
  "list_all well_terminated gs \<Longrightarrow>
   decodeOID_loop (pre @ concat gs) (length pre) oid =
     Some (oid @ map (\<lambda>g. of_nat (group_value g)) gs)"
proof (induction gs arbitrary: pre oid)
  case Nil
  then show ?case by (subst decodeOID_loop.simps) simp
next
  case (Cons g gs)
  then have wt: "well_terminated g" and rest: "list_all well_terminated gs"
    by simp_all
  from wt have ne: "g \<noteq> []"
    by (simp add: well_terminated_def)
  have grp: "decodeOID_group (pre @ g @ concat gs) (length pre) 0 =
      Some (length pre + length g - 1, of_nat (group_value g))"
    using decodeOID_group_app [OF wt, of pre "concat gs" 0] by simp
  from ne have idx: "length pre + length g - 1 + 1 = length (pre @ g)"
    by (cases g) simp_all
  have "decodeOID_loop (pre @ concat (g # gs)) (length pre) oid =
      decodeOID_loop ((pre @ g) @ concat gs) (length (pre @ g)) (oid @ [of_nat (group_value g)])"
    using ne grp idx by (subst decodeOID_loop.simps) simp
  also have "\<dots> = Some ((oid @ [of_nat (group_value g)]) @ map (\<lambda>g. of_nat (group_value g)) gs)"
    by (rule Cons.IH [OF rest])
  finally show ?case by simp
qed

lemma decodeOID_full_read:
  assumes "r s n = (data, None, s')" and "length data = n" and "0 < n"
  shows "decodeOID (int n) r s =
    (case decodeOID_loop data 1 [ucast (data ! 0) div 40, ucast (data ! 0) mod 40] of
       None \<Rightarrow> (Panic, s')
     | Some oid \<Rightarrow> (Success oid n, s'))"
  using assms by (simp add: decodeOID_def)

lemma decodeOID_groups:
  assumes "list_all well_terminated gs"
    and "r s (length (b0 # concat gs)) = (b0 # concat gs, None, s')"
  shows "decodeOID (int (length (b0 # concat gs))) r s =
    (Success ([ucast b0 div 40, ucast b0 mod 40] @ map (\<lambda>g. of_nat (group_value g)) gs)
       (length (b0 # concat gs)), s')"
proof -
  have "decodeOID_loop ([b0] @ concat gs) (length [b0]) [ucast b0 div 40, ucast b0 mod 40] =
      Some ([ucast b0 div 40, ucast b0 mod 40] @ map (\<lambda>g. of_nat (group_value g)) gs)"
    by (rule decodeOID_loop_groups [OF assms(1)])
  then have loop: "decodeOID_loop (b0 # concat gs) 1 [ucast b0 div 40, ucast b0 mod 40] =
      Some ([ucast b0 div 40, ucast b0 mod 40] @ map (\<lambda>g. of_nat (group_value g)) gs)"
    by simp
  have full: "decodeOID (int (length (b0 # concat gs))) r s =
      (case decodeOID_loop (b0 # concat gs) 1 [ucast b0 div 40, ucast b0 mod 40] of
         None \<Rightarrow> (Panic, s')
       | Some oid \<Rightarrow> (Success oid (length (b0 # concat gs)), s'))"
    using decodeOID_full_read [of r s "length (b0 # concat gs)" "b0 # concat gs" s'] assms(2)
    by simp
  show ?thesis
    by (simp only: full loop option.case)
qed



lemma Encode_loop_concat:
  "Encode_loop oid i b = b @ concat (map encodeOIDUint (drop i oid))"
proof (induction oid i b rule: Encode_loop.induct)
  case (1 oid i b)
  show ?case
  proof (cases "i < length oid")
    case True
    then have "drop i oid = oid ! i # drop (i + 1) oid"
      by (simp add: Cons_nth_drop_Suc)
    with True "1.IH" show ?thesis
      by (subst Encode_loop.simps) simp
  next
    case False
    then show ?thesis
      by (subst Encode_loop.simps) simp
  qed
qed

subsection \<open>The base-128 primitive\<close>

lemma cont_byte_ge: "(128 :: byte) \<le> 128 + (ucast (i :: uint16)) mod 128"
  by (simp add: word_le_nat_alt cont_byte_unat)

lemma uint16_pos_div: "(0 < (i :: uint16) div 128) = (128 \<le> unat i)"
proof -
  have "(0 < i div 128) = (0 < unat (i div 128))"
    by (simp add: word_greater_zero_iff unat_gt_0)
  also have "\<dots> = (128 \<le> unat i)"
    by (simp add: unat_div div_greater_zero_iff)
  finally show ?thesis .
qed

lemma encodeOIDUint_loop_ext:
  "\<exists>ext. encodeOIDUint_loop i b = b @ ext \<and> list_all (\<lambda>x. 128 \<le> x) ext \<and>
     (0 < i \<longrightarrow> ext \<noteq> [] \<and> last ext \<noteq> 128)"
proof (induction i b rule: encodeOIDUint_loop.induct)
  case (1 i b)
  show ?case
  proof (cases "0 < i")
    case False
    then show ?thesis
      by (subst encodeOIDUint_loop.simps) simp
  next
    case True
    define x :: byte where "x = 128 + (ucast i) mod 128"
    from "1.IH" [OF True] obtain ext where
      ext: "encodeOIDUint_loop (i div 128) (b @ [x]) = (b @ [x]) @ ext"
      and ge: "list_all (\<lambda>x. 128 \<le> x) ext"
      and last: "0 < i div 128 \<longrightarrow> ext \<noteq> [] \<and> last ext \<noteq> 128"
      unfolding x_def by blast
    have eq: "encodeOIDUint_loop i b = b @ (x # ext)"
      using True ext by (subst encodeOIDUint_loop.simps) (simp add: x_def)
    have xge: "128 \<le> x"
      unfolding x_def by (rule cont_byte_ge)
    have "last (x # ext) \<noteq> 128"
    proof (cases "0 < i div 128")
      case True
      with last show ?thesis by simp
    next
      case False
      then have "encodeOIDUint_loop (i div 128) (b @ [x]) = b @ [x]"
        by (subst encodeOIDUint_loop.simps) simp
      with ext have e: "ext = []" by simp
      from False have lt: "unat i < 128"
        by (simp add: uint16_pos_div)
      from True have "0 < unat i"
        by (simp add: word_greater_zero_iff unat_gt_0)
      with lt have "unat x \<noteq> 128"
        by (simp add: x_def cont_byte_unat)
      then have "x \<noteq> 128" by auto
      with e show ?thesis by simp
    qed
    with eq ge xge show ?thesis
      by auto
  qed
qed

lemma group_value_snoc:
  "group_value (bs @ [b]) = group_value bs * 128 + unat b mod 128"
  by (induction bs) (simp_all add: algebra_simps)

lemma encodeOIDUint_loop_value:
  "group_value (rev (encodeOIDUint_loop i b)) = group_value (rev b) + unat i * 128 ^ length b"
proof (induction i b rule: encodeOIDUint_loop.induct)
  case (1 i b)
  show ?case
  proof (cases "0 < i")
    case False
    then have "i = 0" by (simp add: word_greater_zero_iff)
    then show ?thesis
      by (subst encodeOIDUint_loop.simps) simp
  next
    case True
    have split: "unat i mod 128 + unat i div 128 * 128 = unat i"
      by simp
    have "group_value (rev (encodeOIDUint_loop i b)) =
        group_value (rev (b @ [128 + (ucast i) mod 128])) + unat (i div 128) * 128 ^ length (b @ [128 + (ucast i :: byte) mod 128])"
      using True "1.IH" [OF True] by (subst encodeOIDUint_loop.simps) simp
    also have "\<dots> = (unat i mod 128) * 128 ^ length b + group_value (rev b) + (unat i div 128 * 128) * 128 ^ length b"
      by (simp add: cont_byte_unat unat_div)
    also have "\<dots> = group_value (rev b) + (unat i mod 128 + unat i div 128 * 128) * 128 ^ length b"
      by (simp only: distrib_right add.commute add.left_commute add.assoc)
    finally show ?thesis
      by (simp only: split)
  qed
qed

lemma encodeOIDUint_small: "i < 128 \<Longrightarrow> encodeOIDUint i = [ucast i]"
  by (simp add: encodeOIDUint_def)

lemma encodeOIDUint_large:
  assumes "\<not> (i :: uint16) < 128"
  shows "\<exists>ext. encodeOIDUint i = rev ext @ [(ucast i) mod 128] \<and> ext \<noteq> [] \<and>
    list_all (\<lambda>x. 128 \<le> x) ext \<and> last ext \<noteq> 128"
proof -
  from assms have "128 \<le> unat i"
    by (simp add: word_less_nat_alt)
  then have pos: "0 < i div 128"
    by (simp add: uint16_pos_div)
  from encodeOIDUint_loop_ext [of "i div 128" "[(ucast i) mod 128]"] pos
  obtain ext where "encodeOIDUint_loop (i div 128) [(ucast i) mod 128] = [(ucast i) mod 128] @ ext"
    and "list_all (\<lambda>x. 128 \<le> x) ext" and "ext \<noteq> []" and "last ext \<noteq> 128"
    by blast
  with assms show ?thesis
    by (simp add: encodeOIDUint_def reverseSlice_def)
qed

lemma encodeOIDUint_well_terminated: "well_terminated (encodeOIDUint i)"
proof (cases "i < 128")
  case True
  then have "(ucast i :: byte) < 128"
    by (simp add: word_less_nat_alt unat_ucast_byte)
  with True show ?thesis
    by (simp add: encodeOIDUint_small well_terminated_def)
next
  case False
  from encodeOIDUint_large [OF False] obtain ext where
    e: "encodeOIDUint i = rev ext @ [(ucast i) mod 128]" and ge: "list_all (\<lambda>x. 128 \<le> x) ext"
    by blast
  have "unat ((ucast i :: byte) mod 128) < 128"
    by (simp add: byte_low7)
  then have "(ucast i :: byte) mod 128 < 128"
    by (simp add: word_less_nat_alt)
  with e ge show ?thesis
    by (simp add: well_terminated_def)
qed

lemma encodeOIDUint_value: "group_value (encodeOIDUint i) = unat i"
proof (cases "i < 128")
  case True
  then have "unat i < 128"
    by (simp add: word_less_nat_alt)
  with True show ?thesis
    by (simp add: encodeOIDUint_small unat_ucast_byte)
next
  case False
  have "group_value (encodeOIDUint i) =
      group_value (rev [(ucast i :: byte) mod 128]) + unat (i div 128) * 128 ^ length [(ucast i :: byte) mod 128]"
    using False by (simp only: encodeOIDUint_def reverseSlice_def if_False encodeOIDUint_loop_value)
  also have "\<dots> = unat i mod 128 + unat i div 128 * 128"
    by (simp add: byte_low7 unat_div)
  finally show ?thesis
    by simp
qed

subsection \<open>Encoder and decoder together\<close>

lemma Encode_payload_groups:
  "Encode_payload oid = 0x2b # concat (map encodeOIDUint (drop 2 oid))"
  by (simp add: Encode_payload_def Encode_loop_concat)

lemma Encode_accepted:
  assumes "2 \<le> length oid" and "oid ! 0 = 1 \<or> oid ! 1 = 3"
  shows "Encode h oid = Inr (h 6 (length (Encode_payload oid)) @ Encode_payload oid)"
  using assms by (auto simp: Encode_def Encode_payload_def Let_def)

lemma root_byte: "(ucast (0x2b :: byte) :: uint16) div 40 = 1" "(ucast (0x2b :: byte) :: uint16) mod 40 = 3"
  by simp_all

lemma decodeOID_Encode_payload:
  assumes "r s (length (Encode_payload oid)) = (Encode_payload oid, None, s')"
  shows "decodeOID (int (length (Encode_payload oid))) r s =
    (Success (1 # 3 # drop 2 oid) (length (Encode_payload oid)), s')"
proof -
  let ?gs = "map encodeOIDUint (drop 2 oid)"
  have wt: "list_all well_terminated ?gs"
    by (simp add: list_all_iff encodeOIDUint_well_terminated)
  have vals: "map (\<lambda>g. of_nat (group_value g) :: uint16) ?gs = drop 2 oid"
    by (simp add: encodeOIDUint_value o_def)
  have p: "Encode_payload oid = 0x2b # concat ?gs"
    by (rule Encode_payload_groups)
  from assms have rd: "r s (length (0x2b # concat ?gs)) = (0x2b # concat ?gs, None, s')"
    by (simp only: p)
  have "decodeOID (int (length (0x2b # concat ?gs))) r s =
      (Success ([ucast (0x2b :: byte) div 40, ucast (0x2b :: byte) mod 40] @
         map (\<lambda>g. of_nat (group_value g)) ?gs) (length (0x2b # concat ?gs)), s')"
    using wt rd by (rule decodeOID_groups [of ?gs r s "0x2b" s'])
  then show ?thesis
    by (simp only: p vals root_byte append.simps)
qed

lemma first_two_arcs: "2 \<le> length v \<Longrightarrow> v ! 0 # v ! 1 # drop 2 v = v"
  by (cases v; cases "tl v") auto

subsection \<open>The parser on its tokens\<close>

lemma foldl_step_ge: "(n :: nat) \<le> foldl (\<lambda>n c. n * 10 + (of_char c - 48)) n cs"
proof (induction cs arbitrary: n)
  case Nil
  show ?case by simp
next
  case (Cons c cs)
  have "n \<le> n * 10 + (of_char c - 48)"
    by simp
  also have "\<dots> \<le> foldl (\<lambda>n c. n * 10 + (of_char c - 48)) (n * 10 + (of_char c - 48)) cs"
    by (rule Cons.IH)
  finally show ?case
    by simp
qed

lemma digit_le: "isDigit c \<Longrightarrow> (of_char c :: nat) - 48 \<le> 9"
  unfolding isDigit_def by arith

lemma ParseUint_loop_step:
  assumes "isDigit c" and "(n :: nat) \<le> 65535"
  shows "ParseUint_loop 65535 n (c # cs) =
    (if n * 10 + (of_char c - 48) > 65535 then Inl ErrRange
     else ParseUint_loop 65535 (n * 10 + (of_char c - 48)) cs)"
proof -
  from assms(2) have cut: "\<not> n \<ge> (2 ^ 64 - 1) div 10 + 1"
    by simp
  from assms(2) have a: "n * 10 < 2 ^ 64"
    by simp
  from assms have b: "n * 10 + (of_char c - 48) < 2 ^ 64"
    using digit_le [of c] by simp
  have m1: "(n * 10) mod 2 ^ 64 = n * 10"
    using a by (rule mod_less)
  have m2: "(n * 10 + (of_char c - 48)) mod 2 ^ 64 = n * 10 + (of_char c - 48)"
    using b by (rule mod_less)
  show ?thesis
    using assms(1) cut by (simp only: ParseUint_loop.simps Let_def m1 m2) simp
qed

lemma ParseUint_loop_valid:
  assumes "(n :: nat) \<le> 65535"
  shows "(list_all isDigit cs \<and> foldl (\<lambda>n c. n * 10 + (of_char c - 48)) n cs \<le> 65535 \<longrightarrow>
      ParseUint_loop 65535 n cs = Inr (foldl (\<lambda>n c. n * 10 + (of_char c - 48)) n cs)) \<and>
    (\<not> (list_all isDigit cs \<and> foldl (\<lambda>n c. n * 10 + (of_char c - 48)) n cs \<le> 65535) \<longrightarrow>
      (\<exists>e. ParseUint_loop 65535 n cs = Inl e))"
  using assms
proof (induction cs arbitrary: n)
  case Nil
  then show ?case by simp
next
  case (Cons c cs)
  let ?n1 = "n * 10 + (of_char c - 48)"
  show ?case
  proof (cases "isDigit c")
    case False
    then show ?thesis by simp
  next
    case True
    note st = ParseUint_loop_step [OF True Cons.prems, of cs]
    show ?thesis
    proof (cases "?n1 > 65535")
      case big: True
      have "?n1 \<le> foldl (\<lambda>n c. n * 10 + (of_char c - 48)) ?n1 cs"
        by (rule foldl_step_ge)
      with big have "\<not> foldl (\<lambda>n c. n * 10 + (of_char c - 48)) n (c # cs) \<le> 65535"
        by simp
      with st big show ?thesis
        by simp
    next
      case small: False
      then have le: "?n1 \<le> 65535" by simp
      from st small have eq: "ParseUint_loop 65535 n (c # cs) = ParseUint_loop 65535 ?n1 cs"
        by simp
      from Cons.IH [OF le] True show ?thesis
        by (simp only: eq foldl_Cons list.pred_inject) simp
    qed
  qed
qed

lemma ParseUint_16:
  "(valid_token t \<longrightarrow> ParseUint t 16 = Inr (decimal_value t)) \<and>
   (\<not> valid_token t \<longrightarrow> (\<exists>e. ParseUint t 16 = Inl e))"
proof (cases "t = []")
  case True
  then show ?thesis
    by (simp add: valid_token_def ParseUint_def)
next
  case False
  have m: "(2 :: nat) ^ 16 - 1 = 65535"
    by simp
  from False have "ParseUint t 16 = ParseUint_loop 65535 0 t"
    by (simp only: ParseUint_def m if_False)
  with ParseUint_loop_valid [of 0 t] False show ?thesis
    by (simp add: valid_token_def decimal_value_def)
qed

lemma ParseOID_loop_tokens:
  "(list_all valid_token ts \<longrightarrow>
      ParseOID_loop ts acc = Inr (acc @ map (\<lambda>t. of_nat (decimal_value t)) ts)) \<and>
   (\<not> list_all valid_token ts \<longrightarrow> (\<exists>e. ParseOID_loop ts acc = Inl e))"
proof (induction ts arbitrary: acc)
  case Nil
  show ?case by simp
next
  case (Cons t ts)
  show ?case
  proof (cases "valid_token t")
    case True
    with ParseUint_16 [of t] have "ParseUint t 16 = Inr (decimal_value t)"
      by simp
    then have "ParseOID_loop (t # ts) acc = ParseOID_loop ts (acc @ [of_nat (decimal_value t)])"
      by simp
    with Cons.IH [of "acc @ [of_nat (decimal_value t)]"] True show ?thesis
      by simp
  next
    case False
    with ParseUint_16 [of t] obtain e where "ParseUint t 16 = Inl e"
      by blast
    then have "ParseOID_loop (t # ts) acc = Inl e"
      by simp
    with False show ?thesis
      by simp
  qed
qed

subsection \<open>The formatter's output, parsed\<close>

lemma digit_char: "d < 10 \<Longrightarrow> (of_char (char_of (48 + d :: nat)) :: nat) = 48 + d"
  by (simp add: of_char_of)

lemma decimal_value_snoc:
  "decimal_value (t @ [c]) = decimal_value t * 10 + (of_char c - 48)"
  by (simp add: decimal_value_def)

lemma decimal_digits:
  "decimal n \<noteq> [] \<and> list_all isDigit (decimal n) \<and> decimal_value (decimal n) = n"
proof (induction n rule: decimal.induct)
  case (1 n)
  show ?case
  proof (cases "n < 10")
    case True
    then have d: "decimal n = [char_of (48 + n)]"
      by (subst decimal.simps) simp
    from True show ?thesis
      by (simp add: d isDigit_def digit_char decimal_value_def)
  next
    case False
    then have d: "decimal n = decimal (n div 10) @ [char_of (48 + n mod 10)]"
      by (subst decimal.simps) simp
    have lt: "n mod 10 < 10"
      by simp
    from 1 [OF False] have ih: "decimal (n div 10) \<noteq> []" "list_all isDigit (decimal (n div 10))"
      "decimal_value (decimal (n div 10)) = n div 10"
      by simp_all
    have dig: "isDigit (char_of (48 + n mod 10))"
      by (simp add: isDigit_def digit_char [OF lt])
    have "decimal_value (decimal n) = n div 10 * 10 + n mod 10"
      by (simp only: d decimal_value_snoc ih(3) digit_char [OF lt] add_diff_cancel_left')
    with ih dig show ?thesis
      by (simp add: d)
  qed
qed

lemma digit_not_dot: "isDigit c \<Longrightarrow> c \<noteq> CHR ''.''"
  by (auto simp: isDigit_def)

lemma digits_no_dot: "list_all isDigit t \<Longrightarrow> CHR ''.'' \<notin> set t"
  by (auto simp: list_all_iff dest: digit_not_dot)

lemma Split_no_sep: "sep \<notin> set d \<Longrightarrow> Split d sep = [d]"
proof -
  assume a: "sep \<notin> set d"
  then have t: "takeWhile (\<lambda>c. c \<noteq> sep) d = d"
    by (auto simp: takeWhile_eq_all_conv)
  from a have dr: "dropWhile (\<lambda>c. c \<noteq> sep) d = []"
    by (auto simp: dropWhile_eq_Nil_conv)
  show ?thesis
    by (subst Split.simps) (simp add: t dr)
qed

lemma Split_sep: "sep \<notin> set d \<Longrightarrow> Split (d @ sep # rest) sep = d # Split rest sep"
proof -
  assume a: "sep \<notin> set d"
  then have t: "takeWhile (\<lambda>c. c \<noteq> sep) (d @ sep # rest) = d"
    by (simp add: takeWhile_append)
  from a have dr: "dropWhile (\<lambda>c. c \<noteq> sep) (d @ sep # rest) = sep # rest"
    by (simp add: dropWhile_append)
  show ?thesis
    by (subst Split.simps) (simp add: t dr)
qed

lemma Split_joined:
  assumes "sep \<notin> set d" and "\<forall>t \<in> set ts. sep \<notin> set t"
  shows "Split (d @ concat (map (\<lambda>t. sep # t) ts)) sep = d # ts"
  using assms
proof (induction ts arbitrary: d)
  case Nil
  then show ?case
    by (simp add: Split_no_sep)
next
  case (Cons t ts)
  from Cons.prems have t: "sep \<notin> set t" and ts: "\<forall>t \<in> set ts. sep \<notin> set t"
    by simp_all
  have "Split (d @ sep # (t @ concat (map (\<lambda>t. sep # t) ts))) sep =
      d # Split (t @ concat (map (\<lambda>t. sep # t) ts)) sep"
    using Cons.prems(1) by (rule Split_sep)
  also have "Split (t @ concat (map (\<lambda>t. sep # t) ts)) sep = t # ts"
    using t ts by (rule Cons.IH)
  finally show ?case
    by simp
qed

lemma last_joined:
  assumes "d \<noteq> []" and "last d \<noteq> sep" and "\<forall>t \<in> set ts. t \<noteq> [] \<and> last t \<noteq> sep"
  shows "last (d @ concat (map (\<lambda>t. sep # t) ts)) \<noteq> sep"
  using assms
proof (induction ts arbitrary: d)
  case Nil
  then show ?case by simp
next
  case (Cons t ts)
  from Cons.prems(3) have t: "t \<noteq> []" "last t \<noteq> sep"
    and ts: "\<forall>t \<in> set ts. t \<noteq> [] \<and> last t \<noteq> sep"
    by simp_all
  have "last ((d @ sep # t) @ concat (map (\<lambda>t. sep # t) ts)) \<noteq> sep"
  proof (rule Cons.IH)
    show "d @ sep # t \<noteq> []" by simp
    from t show "last (d @ sep # t) \<noteq> sep" by simp
    from ts show "\<forall>t \<in> set ts. t \<noteq> [] \<and> last t \<noteq> sep" .
  qed
  then show ?case
    by simp
qed

lemma dropWhile_hd: "xs \<noteq> [] \<Longrightarrow> \<not> P (hd xs) \<Longrightarrow> dropWhile P xs = xs"
  by (cases xs) simp_all

lemma Trim_lead_dot:
  assumes "body \<noteq> []" and "hd body \<noteq> CHR ''.''" and "last body \<noteq> CHR ''.''"
  shows "Trim (CHR ''.'' # body) ''.'' = body"
proof -
  from assms(1,2) have a: "dropWhile (\<lambda>c. c \<in> set ''.'') (CHR ''.'' # body) = body"
    by (cases body) simp_all
  from assms(1) have "rev body \<noteq> []" and "hd (rev body) = last body"
    by (simp_all add: hd_rev)
  with assms(3) have b: "dropWhile (\<lambda>c. c \<in> set ''.'') (rev body) = rev body"
    by (simp add: dropWhile_hd)
  show ?thesis
    by (simp only: Trim_def a b rev_rev_ident)
qed

lemma String_concat: "String oid = concat (map Sprintf_dot_d oid)"
proof -
  have "foldl (\<lambda>str part. str @ Sprintf_dot_d part) acc oid = acc @ concat (map Sprintf_dot_d oid)"
    for acc
    by (induction oid arbitrary: acc) simp_all
  then show ?thesis
    by (simp add: String_def)
qed

lemma String_joined:
  "String (p # ps) =
     CHR ''.'' # (decimal (unat p) @ concat (map (\<lambda>t. CHR ''.'' # t) (map (\<lambda>q. decimal (unat q)) ps)))"
proof -
  have "Sprintf_dot_d = (\<lambda>q. CHR ''.'' # decimal (unat q))"
    by (rule ext) (simp add: Sprintf_dot_d_def)
  then show ?thesis
    by (simp add: String_concat Sprintf_dot_d_def o_def)
qed

lemma tokens_String:
  "tokens (String (p # ps)) = map (\<lambda>q. decimal (unat q)) (p # ps)"
proof -
  let ?d = "decimal (unat p)"
  let ?ts = "map (\<lambda>q. decimal (unat q)) ps"
  let ?body = "?d @ concat (map (\<lambda>t. CHR ''.'' # t) ?ts)"
  have nd: "CHR ''.'' \<notin> set (decimal n)" for n
    using decimal_digits [of n] by (simp add: digits_no_dot)
  have ne: "decimal n \<noteq> []" for n
    using decimal_digits [of n] by simp
  have l: "last (decimal n) \<noteq> CHR ''.''" for n
    using nd [of n] ne [of n] last_in_set [of "decimal n"] by metis
  have h: "hd (decimal n) \<noteq> CHR ''.''" for n
    using nd [of n] ne [of n] hd_in_set [of "decimal n"] by metis
  have b1: "?body \<noteq> []"
    using ne [of "unat p"] by simp
  have b2: "hd ?body \<noteq> CHR ''.''"
    using ne [of "unat p"] h [of "unat p"] by simp
  have b3: "last ?body \<noteq> CHR ''.''"
    by (rule last_joined) (auto simp: ne l)
  have "Trim (CHR ''.'' # ?body) ''.'' = ?body"
    using b1 b2 b3 by (rule Trim_lead_dot)
  then have "Trim (String (p # ps)) ''.'' = ?body"
    by (simp only: String_joined)
  moreover have "Split ?body (CHR ''.'') = ?d # ?ts"
    by (rule Split_joined) (auto simp: nd)
  ultimately show ?thesis
    by (simp add: tokens_def)
qed

lemma valid_decimal: "valid_token (decimal (unat (p :: uint16)))"
proof -
  have "unat p < 2 ^ 16"
    using unsigned_less [of p] by simp
  then have "unat p \<le> 65535"
    by simp
  with decimal_digits [of "unat p"] show ?thesis
    by (simp add: valid_token_def)
qed

lemma ParseOID_String:
  assumes "oid \<noteq> []"
  shows "ParseOID (String oid) = Inr oid"
proof -
  from assms obtain p ps where oid: "oid = p # ps"
    by (cases oid) auto
  have tk: "tokens (String oid) = map (\<lambda>q. decimal (unat q)) oid"
    unfolding oid by (rule tokens_String)
  have v: "list_all valid_token (map (\<lambda>q. decimal (unat q)) oid)"
    by (simp add: list_all_iff valid_decimal)
  have vals: "map (\<lambda>t. of_nat (decimal_value t) :: uint16) (map (\<lambda>q. decimal (unat q)) oid) = oid"
    using decimal_digits by (simp add: o_def)
  have "ParseOID (String oid) = ParseOID_loop (tokens (String oid)) []"
    by (simp only: ParseOID_def tokens_def)
  also have "\<dots> = Inr ([] @ map (\<lambda>t. of_nat (decimal_value t)) (map (\<lambda>q. decimal (unat q)) oid))"
    using ParseOID_loop_tokens [of "map (\<lambda>q. decimal (unat q)) oid" "[]"] v
    by (simp only: tk)
  finally show ?thesis
    by (simp only: vals append_Nil)
qed

lemma Split_not_Nil: "Split s sep \<noteq> []"
  by (subst Split.simps) (simp add: Let_def)

lemma ParseOID_not_Nil:
  assumes "ParseOID s = Inr oid"
  shows "oid \<noteq> []"
proof -
  have p: "ParseOID s = ParseOID_loop (tokens s) []"
    by (simp only: ParseOID_def tokens_def)
  have ne: "tokens s \<noteq> []"
    by (simp add: tokens_def Split_not_Nil)
  from ParseOID_loop_tokens [of "tokens s" "[]"] assms p
  have "oid = map (\<lambda>t. of_nat (decimal_value t)) (tokens s)"
    by (cases "list_all valid_token (tokens s)") auto
  with ne show ?thesis
    by simp
qed

section \<open>Claims\<close>




text \<open>
  Claim C2 does not hold of the code. With declared length 2 and the payload \<open>0x2b\<close>, \<open>0x81\<close>
  the group opened by \<open>0x81\<close> is still waiting for its terminal byte at the boundary; the
  inner loop then indexes \<^verbatim>\<open>b[2]\<close>, which is out of range, and the call panics instead of
  returning an error.
\<close>

theorem decodeOID_truncated_group_panics:
  "decodeOID 2 chunkReader [[0x2b, 0x81]] = (Panic, [])"
  by (simp add: decodeOID_def decodeOID_loop.simps decodeOID_group.simps)

text \<open>
  Claim C3. For every OID of length at least 2, \<^verbatim>\<open>Encode\<close> returns the root error exactly
  when the first arc differs from 1 and the second arc differs from 3; an OID whose first
  arc is 1 or whose second arc is 3 passes the check and is encoded. The error is returned
  in place of the bytes.
\<close>

theorem Encode_root_check:
  "2 \<le> length oid \<Longrightarrow>
   (Encode h oid = Inl BadRoot) = (oid ! 0 \<noteq> 1 \<and> oid ! 1 \<noteq> 3) \<and>
   (oid ! 0 = 1 \<or> oid ! 1 = 3 \<longrightarrow> (\<exists>bs. Encode h oid = Inr bs))"
  by (auto simp: Encode_def Let_def)

theorem Encode_root_check_witness:
  "Encode (\<lambda>tag n. [of_nat tag, of_nat n]) [2, 5, 6] = Inl BadRoot \<and>
   (\<exists>bs. Encode (\<lambda>tag n. [of_nat tag, of_nat n]) [1, 5, 6] = Inr bs) \<and>
   (\<exists>bs. Encode (\<lambda>tag n. [of_nat tag, of_nat n]) [2, 3, 6] = Inr bs)"
  using Encode_root_check [of "[2, 5, 6]" "\<lambda>tag n. [of_nat tag, of_nat n]"]
    Encode_root_check [of "[1, 5, 6]" "\<lambda>tag n. [of_nat tag, of_nat n]"]
    Encode_root_check [of "[2, 3, 6]" "\<lambda>tag n. [of_nat tag, of_nat n]"]
  by simp

text \<open>
  Claim C4. For every OID \<open>v\<close> of length at least 2 whose first two arcs are 1 and 3 (the other
  arcs are 16-bit, hence in 0..65535), \<^verbatim>\<open>Encode\<close> succeeds with the header followed by the
  payload, and \<^verbatim>\<open>decodeOID\<close> on the payload, with the payload's length as declared length and
  a source that yields all of it in one read, returns \<open>v\<close> and that length as bytes read.
\<close>

theorem Encode_decodeOID_roundtrip:
  assumes "2 \<le> length v" and "v ! 0 = 1" and "v ! 1 = 3"
    and "r s (length (Encode_payload v)) = (Encode_payload v, None, s')"
  shows "Encode h v = Inr (h 6 (length (Encode_payload v)) @ Encode_payload v) \<and>
    decodeOID (int (length (Encode_payload v))) r s =
      (Success v (length (Encode_payload v)), s')"
proof -
  from assms(1-3) have v: "1 # 3 # drop 2 v = v"
    using first_two_arcs [of v] by simp
  have enc: "Encode h v = Inr (h 6 (length (Encode_payload v)) @ Encode_payload v)"
    using assms(1-3) by (simp add: Encode_accepted)
  have "decodeOID (int (length (Encode_payload v))) r s =
      (Success (1 # 3 # drop 2 v) (length (Encode_payload v)), s')"
    using assms(4) by (rule decodeOID_Encode_payload [of r s v s'])
  with enc show ?thesis
    by (simp only: v)
qed

theorem Encode_decodeOID_roundtrip_witness:
  "Encode (\<lambda>tag n. [of_nat tag, of_nat n]) [1, 3, 6, 300, 65535] =
     Inr [0x06, 0x07, 0x2b, 0x06, 0x82, 0x2c, 0x83, 0xff, 0x7f] \<and>
   decodeOID 7 chunkReader [[0x2b, 0x06, 0x82, 0x2c, 0x83, 0xff, 0x7f]] =
     (Success [1, 3, 6, 300, 65535] 7, [])"
proof -
  have p: "Encode_payload [1, 3, 6, 300, 65535] = [0x2b, 0x06, 0x82, 0x2c, 0x83, 0xff, 0x7f]"
    by (simp add: Encode_payload_def Encode_loop.simps encodeOIDUint_def reverseSlice_def
        encodeOIDUint_loop.simps)
  show ?thesis
    using Encode_decodeOID_roundtrip [of "[1, 3, 6, 300, 65535]" chunkReader
        "[[0x2b, 0x06, 0x82, 0x2c, 0x83, 0xff, 0x7f]]" "[]" "\<lambda>tag n. [of_nat tag, of_nat n]"]
    by (simp add: p)
qed

text \<open>
  Claim C5. For every 16-bit \<open>v\<close>, \<^verbatim>\<open>encodeOIDUint\<close> gives the single byte \<open>v\<close> when \<open>v < 128\<close>;
  when \<open>v \<ge> 128\<close> it gives at least two bytes and no leading empty group. In both cases the
  top bit is set on every byte except the last and clear on the last, and the seven-bit
  groups read most significant first are the base-128 digits of \<open>v\<close>.
\<close>

theorem encodeOIDUint_base128:
  "(v < 128 \<longrightarrow> encodeOIDUint v = [ucast v]) \<and>
   (128 \<le> v \<longrightarrow> 2 \<le> length (encodeOIDUint v) \<and> hd (encodeOIDUint v) \<noteq> 0x80) \<and>
   list_all (\<lambda>b. bit b 7) (butlast (encodeOIDUint v)) \<and>
   \<not> bit (last (encodeOIDUint v)) 7 \<and>
   group_value (encodeOIDUint v) = unat v"
proof -
  have small: "v < 128 \<longrightarrow> encodeOIDUint v = [ucast v]"
    by (simp add: encodeOIDUint_small)
  have large: "128 \<le> v \<longrightarrow> 2 \<le> length (encodeOIDUint v) \<and> hd (encodeOIDUint v) \<noteq> 0x80"
  proof
    assume "128 \<le> v"
    then have "\<not> v < 128" by simp
    from encodeOIDUint_large [OF this] obtain ext where
      e: "encodeOIDUint v = rev ext @ [(ucast v) mod 128]" and ne: "ext \<noteq> []"
      and l: "last ext \<noteq> 128"
      by blast
    from ne have "1 \<le> length ext"
      by (cases ext) simp_all
    then have "2 \<le> length (rev ext @ [(ucast v :: byte) mod 128])" by simp
    with e have len: "2 \<le> length (encodeOIDUint v)" by simp
    from ne have "hd (rev ext @ [(ucast v) mod 128]) = last ext"
      by (simp add: hd_rev)
    with e l len show "2 \<le> length (encodeOIDUint v) \<and> hd (encodeOIDUint v) \<noteq> 0x80"
      by simp
  qed
  have wt: "well_terminated (encodeOIDUint v)"
    by (rule encodeOIDUint_well_terminated)
  then have top: "list_all (\<lambda>b. bit b 7) (butlast (encodeOIDUint v))"
    and bot: "\<not> bit (last (encodeOIDUint v)) 7"
    by (simp_all add: well_terminated_def byte_bit7 not_le)
  from small large top bot encodeOIDUint_value [of v] show ?thesis
    by blast
qed

theorem encodeOIDUint_base128_witness:
  "encodeOIDUint 5 = [5] \<and> encodeOIDUint 300 = [0x82, 0x2c] \<and>
   encodeOIDUint 65535 = [0x83, 0xff, 0x7f] \<and>
   group_value (encodeOIDUint 65535) = 65535"
  using encodeOIDUint_base128 [of 5] encodeOIDUint_base128 [of 300]
    encodeOIDUint_base128 [of 65535]
  by (simp add: encodeOIDUint_def reverseSlice_def encodeOIDUint_loop.simps)

text \<open>
  Claim C8. The group accumulation of the decoder gives 128 for the bytes \<open>0x81 0x00\<close>, 16383
  for \<open>0xFF 0x7F\<close> and 16384 for \<open>0x81 0x80 0x00\<close>, both for the inner loop alone and for
  \<^verbatim>\<open>decodeOID\<close> on a payload that holds the group after the lead byte \<open>0x2b\<close>.
\<close>

theorem decodeOID_pinned_values:
  "decodeOID_group [0x81, 0x00] 0 0 = Some (1, 128) \<and>
   decodeOID_group [0xFF, 0x7F] 0 0 = Some (1, 16383) \<and>
   decodeOID_group [0x81, 0x80, 0x00] 0 0 = Some (2, 16384) \<and>
   fst (decodeOID 3 chunkReader [[0x2b, 0x81, 0x00]]) = Success [1, 3, 128] 3 \<and>
   fst (decodeOID 3 chunkReader [[0x2b, 0xFF, 0x7F]]) = Success [1, 3, 16383] 3 \<and>
   fst (decodeOID 4 chunkReader [[0x2b, 0x81, 0x80, 0x00]]) = Success [1, 3, 16384] 4"
  by (simp add: decodeOID_def decodeOID_loop.simps decodeOID_group.simps)

text \<open>
  Claim C9. For every sequence of well-terminated groups after a lead byte, read in full,
  \<^verbatim>\<open>decodeOID\<close> succeeds, and the arc it returns for a group is the group's value modulo
  \<open>2 ^ 16\<close>: a value above 65535 is truncated, never reported as an error.
\<close>

theorem decodeOID_truncates_mod_2_16:
  assumes "list_all well_terminated gs"
    and "r s (length (b0 # concat gs)) = (b0 # concat gs, None, s')"
  shows "\<exists>arcs. decodeOID (int (length (b0 # concat gs))) r s =
      (Success ([ucast b0 div 40, ucast b0 mod 40] @ arcs) (length (b0 # concat gs)), s') \<and>
    map unat arcs = map (\<lambda>g. group_value g mod 2 ^ 16) gs"
proof -
  let ?arcs = "map (\<lambda>g. of_nat (group_value g) :: uint16) gs"
  have "map unat ?arcs = map (\<lambda>g. group_value g mod 2 ^ 16) gs"
    by (simp add: unat_of_nat o_def)
  with decodeOID_groups [of gs r s b0 s'] assms show ?thesis
    by blast
qed

theorem decodeOID_truncates_mod_2_16_witness:
  "well_terminated [0x84, 0x80, 0x01] \<and> group_value [0x84, 0x80, 0x01] = 65537 \<and>
   (\<exists>arcs. decodeOID 4 chunkReader [[0x2b, 0x84, 0x80, 0x01]] = (Success ([1, 3] @ arcs) 4, []) \<and>
      map unat arcs = [1])"
proof -
  have four: "Suc (Suc (Suc (Suc 0))) = 4"
    by simp
  show ?thesis
    using decodeOID_truncates_mod_2_16 [of "[[0x84, 0x80, 0x01]]" chunkReader
        "[[0x2b, 0x84, 0x80, 0x01]]" "0x2b" "[]"]
    by (simp add: well_terminated_def four)
qed

text \<open>
  Claim C10. For every OID that passes the root check of \<^verbatim>\<open>Encode\<close>, the payload starts with
  the byte \<open>0x2b\<close> whatever the first two arcs are: the encoding equals that of the OID with
  its first two arcs replaced by 1 and 3, and decoding the payload yields that OID, not the
  original one.
\<close>

theorem Encode_fixed_lead_byte:
  assumes "2 \<le> length oid" and "oid ! 0 = 1 \<or> oid ! 1 = 3"
    and "r s (length (Encode_payload oid)) = (Encode_payload oid, None, s')"
  shows "Encode h oid = Inr (h 6 (length (Encode_payload oid)) @ Encode_payload oid) \<and>
    hd (Encode_payload oid) = 0x2b \<and>
    Encode h oid = Encode h (1 # 3 # drop 2 oid) \<and>
    decodeOID (int (length (Encode_payload oid))) r s =
      (Success (1 # 3 # drop 2 oid) (length (Encode_payload oid)), s')"
proof -
  have enc: "Encode h oid = Inr (h 6 (length (Encode_payload oid)) @ Encode_payload oid)"
    using assms(1,2) by (rule Encode_accepted)
  have same: "Encode_payload (1 # 3 # drop 2 oid) = Encode_payload oid"
    by (simp add: Encode_payload_groups)
  have "Encode h (1 # 3 # drop 2 oid) =
      Inr (h 6 (length (Encode_payload (1 # 3 # drop 2 oid))) @ Encode_payload (1 # 3 # drop 2 oid))"
    by (rule Encode_accepted) simp_all
  with enc same have eq: "Encode h oid = Encode h (1 # 3 # drop 2 oid)"
    by simp
  have lead: "hd (Encode_payload oid) = 0x2b"
    by (simp add: Encode_payload_groups)
  have "decodeOID (int (length (Encode_payload oid))) r s =
      (Success (1 # 3 # drop 2 oid) (length (Encode_payload oid)), s')"
    using assms(3) by (rule decodeOID_Encode_payload [of r s oid s'])
  with enc lead eq show ?thesis
    by blast
qed

theorem Encode_fixed_lead_byte_witness:
  "Encode (\<lambda>tag n. [of_nat tag, of_nat n]) [1, 5, 6] =
     Encode (\<lambda>tag n. [of_nat tag, of_nat n]) [1, 3, 6] \<and>
   Encode (\<lambda>tag n. [of_nat tag, of_nat n]) [2, 3, 6] =
     Encode (\<lambda>tag n. [of_nat tag, of_nat n]) [1, 3, 6] \<and>
   Encode (\<lambda>tag n. [of_nat tag, of_nat n]) [1, 5, 6] = Inr [0x06, 0x02, 0x2b, 0x06] \<and>
   decodeOID 2 chunkReader [[0x2b, 0x06]] = (Success [1, 3, 6] 2, [])"
proof -
  have p: "Encode_payload [1, 5, 6] = [0x2b, 0x06]" "Encode_payload [2, 3, 6] = [0x2b, 0x06]"
    by (simp_all add: Encode_payload_def Encode_loop.simps encodeOIDUint_def)
  have e: "Encode (\<lambda>tag n. [of_nat tag, of_nat n]) [1, 3, 6] = Inr [0x06, 0x02, 0x2b, 0x06]"
    by (simp add: Encode_def Encode_loop.simps encodeOIDUint_def)
  have two: "Suc (Suc 0) = 2"
    by simp
  show ?thesis
    using Encode_fixed_lead_byte [of "[1, 5, 6]" chunkReader "[[0x2b, 0x06]]" "[]"
        "\<lambda>tag n. [of_nat tag, of_nat n]"]
      Encode_fixed_lead_byte [of "[2, 3, 6]" chunkReader "[[0x2b, 0x06]]" "[]"
        "\<lambda>tag n. [of_nat tag, of_nat n]"]
    by (simp add: p e two)
qed

text \<open>
  Claim C7. \<^verbatim>\<open>ParseOID\<close> trims the dots at both ends of its input and splits the rest at
  the dots. When every token is a non-empty string of decimal digits that stands for an
  integer in 0..65535, the result is the OID of the tokens' values; when some token is empty,
  not numeric or out of that range, the call returns an error and no OID. The empty string
  and the string of one dot give the syntax error of the empty token, and
  \<open>1.3.6.1.4.1.99999\<close> gives the range error.
\<close>

theorem ParseOID_token_errors:
  "(list_all valid_token (tokens s) \<longrightarrow>
      ParseOID s = Inr (map (\<lambda>t. of_nat (decimal_value t)) (tokens s))) \<and>
   ((\<exists>t \<in> set (tokens s). \<not> valid_token t) \<longrightarrow> (\<exists>e. ParseOID s = Inl e)) \<and>
   ParseOID [] = Inl ErrSyntax \<and>
   ParseOID ''.'' = Inl ErrSyntax \<and>
   ParseOID ''1.3.6.1.4.1.99999'' = Inl ErrRange"
proof -
  have ex: "(\<exists>t \<in> set (tokens s). \<not> valid_token t) = (\<not> list_all valid_token (tokens s))"
    by (simp add: list_all_iff)
  have a: "ParseOID [] = Inl ErrSyntax"
    by (simp add: ParseOID_def Trim_def ParseUint_def Split.simps)
  have b: "ParseOID ''.'' = Inl ErrSyntax"
    by (simp add: ParseOID_def Trim_def ParseUint_def Split.simps)
  have c: "ParseOID ''1.3.6.1.4.1.99999'' = Inl ErrRange"
    by (simp add: ParseOID_def Trim_def ParseUint_def isDigit_def Let_def Split.simps)
  have p: "ParseOID s = ParseOID_loop (tokens s) []"
    by (simp only: ParseOID_def tokens_def)
  from ParseOID_loop_tokens [of "tokens s" "[]"]
  have "(list_all valid_token (tokens s) \<longrightarrow>
      ParseOID s = Inr (map (\<lambda>t. of_nat (decimal_value t)) (tokens s))) \<and>
    ((\<exists>t \<in> set (tokens s). \<not> valid_token t) \<longrightarrow> (\<exists>e. ParseOID s = Inl e))"
    by (simp only: ex p append_Nil)
  with a b c show ?thesis
    by blast
qed

theorem ParseOID_token_errors_witness:
  "ParseOID ''.1.3.65535.'' = Inr [1, 3, 65535] \<and>
   (\<exists>e. ParseOID ''1..3'' = Inl e) \<and> (\<exists>e. ParseOID ''1.x.3'' = Inl e) \<and>
   (\<exists>e. ParseOID ''1.65536'' = Inl e)"
proof -
  have t1: "tokens ''.1.3.65535.'' = [''1'', ''3'', ''65535'']"
    by (simp add: tokens_def Trim_def Split.simps)
  have t2: "tokens ''1..3'' = [''1'', [], ''3'']"
    by (simp add: tokens_def Trim_def Split.simps)
  have t3: "tokens ''1.x.3'' = [''1'', ''x'', ''3'']"
    by (simp add: tokens_def Trim_def Split.simps)
  have t4: "tokens ''1.65536'' = [''1'', ''65536'']"
    by (simp add: tokens_def Trim_def Split.simps)
  show ?thesis
    using ParseOID_token_errors [of "''.1.3.65535.''"] ParseOID_token_errors [of "''1..3''"]
      ParseOID_token_errors [of "''1.x.3''"] ParseOID_token_errors [of "''1.65536''"]
    by (simp add: t1 t2 t3 t4 valid_token_def isDigit_def decimal_value_def)
qed

text \<open>
  Claim C6. For every OID that \<^verbatim>\<open>ParseOID\<close> returns for some input, the text that
  \<^verbatim>\<open>String\<close> gives for it is parsed back to the same OID: the formatter's leading dot is
  removed by the trim, and every arc is written as a decimal number in 0..65535.
\<close>

theorem ParseOID_String_roundtrip:
  "ParseOID s = Inr oid \<Longrightarrow> ParseOID (String oid) = Inr oid"
  by (rule ParseOID_String) (rule ParseOID_not_Nil)

theorem ParseOID_String_roundtrip_witness:
  "ParseOID ''1.3.65535.0.'' = Inr [1, 3, 65535, 0] \<and>
   String [1, 3, 65535, 0] = ''.1.3.65535.0'' \<and>
   ParseOID (String [1, 3, 65535, 0]) = Inr [1, 3, 65535, 0]"
proof -
  have a: "ParseOID ''1.3.65535.0.'' = Inr [1, 3, 65535, 0]"
    by (simp add: ParseOID_def Trim_def ParseUint_def isDigit_def Let_def Split.simps)
  have b: "String [1, 3, 65535, 0] = ''.1.3.65535.0''"
    by (simp add: String_def Sprintf_dot_d_def decimal.simps char_of_def bit_Suc_0_iff)
  from ParseOID_String_roundtrip [of "''1.3.65535.0.''" "[1, 3, 65535, 0]"] a b show ?thesis
    by simp
qed

end
